theory Spec2Isabelle
  imports Main "HOL-Library.Word"
begin

section \<open>The headless test runtime \<open>src/runtime/libtestergame.cpp\<close>\<close>

text \<open>
  The runtime is one translation unit: a file-static flag \<open>game_ended\<close>, the constant
  \<open>max_steps\<close>, twelve operations with C linkage that the game logic may call, and
  \<open>main\<close>, which drives the three hooks \<open>global_create\<close>, \<open>global_step\<close> and
  \<open>global_draw\<close> that the game logic supplies.

  The embedding passes the state of the process explicitly. The hooks are external code:
  they are modelled as programs over the twelve operations (the only way the game logic
  reaches the runtime, whose flag is \<open>static\<close>) together with a memory of the game
  logic's own, of an arbitrary type \<open>'g\<close>. A hook is assumed to return, and to touch
  the two streams and the process only through these operations.
\<close>

subsection \<open>Values\<close>

text \<open>C's \<open>int\<close> is a 32-bit word read as two's complement; \<open>void *\<close> is an address;
  a \<open>double\<close> is kept as its 64-bit pattern, since the runtime only passes it on.\<close>

type_synonym cint = "32 word"
type_synonym ptr = "64 word"
type_synonym double = "64 word"

definition nullptr :: ptr where
  "nullptr = 0"

definition max_steps :: cint where
  "max_steps = 1000"

subsection \<open>The state of the process\<close>

text \<open>What \<open>printf\<close> has put on the standard output: characters, or the rendering of a
  \<open>double\<close> under \<open>%f\<close>, which is recorded and not computed.\<close>

datatype out_item = Chars string | Float_f double

text \<open>The ghost trace records what \<open>main\<close> does, in order: each call of a hook, and each
  \<open>++num_steps\<close> with the value the counter takes.\<close>

datatype event = Create | Step | Draw | Incr cint

text \<open>
  \<open>game_ended\<close> is the file-static flag, \<open>num_steps\<close> the local of \<open>main\<close>,
  \<open>stdout\<close> and \<open>stderr\<close> the two streams, \<open>mem\<close> the memory of the game logic and
  \<open>trace\<close> the ghost trace.
\<close>

record 'g machine =
  game_ended :: bool
  num_steps :: cint
  stdout :: "out_item list"
  stderr :: string
  mem :: 'g
  trace :: "event list"

text \<open>At process start the flag has its initialiser \<open>false\<close> and nothing has been written.\<close>

definition initial :: "'g \<Rightarrow> 'g machine" where
  "initial g = \<lparr>game_ended = False, num_steps = 0, stdout = [], stderr = [],
     mem = g, trace = []\<rparr>"

subsection \<open>The built-in print functions\<close>

fun decimal :: "nat \<Rightarrow> string" where
  "decimal n = (if n < 10 then [char_of (48 + n)]
     else decimal (n div 10) @ [char_of (48 + n mod 10)])"

definition show_int :: "int \<Rightarrow> string" where
  "show_int i = (if i < 0 then CHR ''-'' # decimal (nat (- i)) else decimal (nat i))"

definition newline :: string where
  "newline = [CHR 0x0A]"

definition put :: "out_item \<Rightarrow> 'g machine \<Rightarrow> 'g machine" where
  "put x s = s\<lparr>stdout := stdout s @ [x]\<rparr>"

definition print :: "cint \<Rightarrow> 'g machine \<Rightarrow> 'g machine" where
  "print x s = put (Chars (show_int (sint x) @ newline)) s"

definition printb :: "bool \<Rightarrow> 'g machine \<Rightarrow> 'g machine" where
  "printb x s = (if x then put (Chars (''true'' @ newline)) s
     else put (Chars (''false'' @ newline)) s)"

definition print_float :: "double \<Rightarrow> 'g machine \<Rightarrow> 'g machine" where
  "print_float x s = put (Chars newline) (put (Float_f x) s)"

definition printstr :: "string \<Rightarrow> 'g machine \<Rightarrow> 'g machine" where
  "printstr x s = put (Chars (x @ newline)) s"

subsection \<open>The dummy remainder functions\<close>

text \<open>An operation that returns a value gives the value and the state it leaves.\<close>

definition load_sound :: "string \<Rightarrow> 'g machine \<Rightarrow> ptr \<times> 'g machine" where
  "load_sound filename s = (nullptr, s)"

definition play_sound :: "ptr \<Rightarrow> 'g machine \<Rightarrow> 'g machine" where
  "play_sound sound s = s"

definition loop_sound :: "ptr \<Rightarrow> 'g machine \<Rightarrow> 'g machine" where
  "loop_sound sound s = s"

definition load_image :: "string \<Rightarrow> 'g machine \<Rightarrow> ptr \<times> 'g machine" where
  "load_image filename s = (nullptr, s)"

definition set_sprite_position :: "ptr \<Rightarrow> double \<Rightarrow> double \<Rightarrow> 'g machine \<Rightarrow> 'g machine" where
  "set_sprite_position sp x y s = s"

definition draw_sprite :: "ptr \<Rightarrow> 'g machine \<Rightarrow> 'g machine" where
  "draw_sprite sprite s = s"

definition end_game :: "'g machine \<Rightarrow> 'g machine" where
  "end_game s = s\<lparr>game_ended := True\<rparr>"

definition key_pressed :: "cint \<Rightarrow> 'g machine \<Rightarrow> bool \<times> 'g machine" where
  "key_pressed code s = (False, s)"

subsection \<open>Game logic\<close>

text \<open>
  The body of a hook, as the runtime sees it: a sequence of calls of the operations, each
  continuing with the rest of the body (which depends on the value returned, where there
  is one), until the hook returns, leaving the game logic's memory as \<open>Return\<close> gives it.
\<close>

datatype 'g prog =
    Return 'g
  | Call_print cint "'g prog"
  | Call_printb bool "'g prog"
  | Call_print_float double "'g prog"
  | Call_printstr string "'g prog"
  | Call_load_sound string "ptr \<Rightarrow> 'g prog"
  | Call_play_sound ptr "'g prog"
  | Call_loop_sound ptr "'g prog"
  | Call_load_image string "ptr \<Rightarrow> 'g prog"
  | Call_set_sprite_position ptr double double "'g prog"
  | Call_draw_sprite ptr "'g prog"
  | Call_end_game "'g prog"
  | Call_key_pressed cint "bool \<Rightarrow> 'g prog"

primrec exec :: "'g prog \<Rightarrow> 'g machine \<Rightarrow> 'g machine" where
  "exec (Return g) s = s\<lparr>mem := g\<rparr>"
| "exec (Call_print x k) s = exec k (print x s)"
| "exec (Call_printb x k) s = exec k (printb x s)"
| "exec (Call_print_float x k) s = exec k (print_float x s)"
| "exec (Call_printstr x k) s = exec k (printstr x s)"
| "exec (Call_load_sound f k) s = exec (k (fst (load_sound f s))) (snd (load_sound f s))"
| "exec (Call_play_sound p k) s = exec k (play_sound p s)"
| "exec (Call_loop_sound p k) s = exec k (loop_sound p s)"
| "exec (Call_load_image f k) s = exec (k (fst (load_image f s))) (snd (load_image f s))"
| "exec (Call_set_sprite_position p x y k) s = exec k (set_sprite_position p x y s)"
| "exec (Call_draw_sprite p k) s = exec k (draw_sprite p s)"
| "exec (Call_end_game k) s = exec k (end_game s)"
| "exec (Call_key_pressed c k) s = exec (k (fst (key_pressed c s))) (snd (key_pressed c s))"

text \<open>Whether the body, run to its return, calls \<open>end_game\<close>; the body goes on with
  the values the operations return, the null handle and \<open>false\<close>.\<close>

primrec ends :: "'g prog \<Rightarrow> bool" where
  "ends (Return g) = False"
| "ends (Call_print x k) = ends k"
| "ends (Call_printb x k) = ends k"
| "ends (Call_print_float x k) = ends k"
| "ends (Call_printstr x k) = ends k"
| "ends (Call_load_sound f k) = ends (k nullptr)"
| "ends (Call_play_sound p k) = ends k"
| "ends (Call_loop_sound p k) = ends k"
| "ends (Call_load_image f k) = ends (k nullptr)"
| "ends (Call_set_sprite_position p x y k) = ends k"
| "ends (Call_draw_sprite p k) = ends k"
| "ends (Call_end_game k) = True"
| "ends (Call_key_pressed c k) = ends (k False)"

text \<open>The three hooks: each reads the memory of the game logic and runs a body.\<close>

record 'g game =
  global_create :: "'g \<Rightarrow> 'g prog"
  global_step :: "'g \<Rightarrow> 'g prog"
  global_draw :: "'g \<Rightarrow> 'g prog"

definition call_create :: "'g game \<Rightarrow> 'g machine \<Rightarrow> 'g machine" where
  "call_create G s = exec (global_create G (mem s)) (s\<lparr>trace := trace s @ [Create]\<rparr>)"

definition call_step :: "'g game \<Rightarrow> 'g machine \<Rightarrow> 'g machine" where
  "call_step G s = exec (global_step G (mem s)) (s\<lparr>trace := trace s @ [Step]\<rparr>)"

definition call_draw :: "'g game \<Rightarrow> 'g machine \<Rightarrow> 'g machine" where
  "call_draw G s = exec (global_draw G (mem s)) (s\<lparr>trace := trace s @ [Draw]\<rparr>)"

subsection \<open>The driver\<close>

definition failure_text :: string where
  "failure_text = ''FAILURE: Exceed max number of steps allowed for test. '' @
     ''Did you forget to call end_game()?'' @ newline"

definition incr :: "'g machine \<Rightarrow> 'g machine" where
  "incr s = s\<lparr>num_steps := num_steps s + 1, trace := trace s @ [Incr (num_steps s + 1)]\<rparr>"

text \<open>
  The \<open>while\<close> loop of \<open>main\<close>, from its test to the \<open>return\<close> that ends the process:
  the result is the exit status and the final state. The loop ends, since the hooks
  cannot reach the counter and each iteration brings it nearer to the ceiling.
\<close>

function loop :: "'g game \<Rightarrow> 'g machine \<Rightarrow> int \<times> 'g machine" where
  "loop G s =
     (if \<not> game_ended s then
        let s1 = call_step G s;
            s2 = call_draw G s1;
            s3 = incr s2
        in if max_steps \<le>s num_steps s3
           then (1, s3\<lparr>stderr := stderr s3 @ failure_text\<rparr>)
           else loop G s3
      else (0, s))"
  by pat_completeness auto
termination
proof -
  have keep: "num_steps (exec p s) = num_steps s" for p s
    by (induction p arbitrary: s)
      (simp_all add: print_def printb_def print_float_def printstr_def put_def
        load_sound_def play_sound_def loop_sound_def load_image_def
        set_sprite_position_def draw_sprite_def end_game_def key_pressed_def)
  have down: "unat (max_steps - (n + 1)) < unat (max_steps - n)"
    if "\<not> max_steps \<le>s n + 1" for n
  proof -
    have "max_steps - n \<noteq> 0"
      using that by (auto simp: max_steps_def word_sle_eq)
    then have "unat (max_steps - n - 1) < unat (max_steps - n)"
      by (simp add: unat_minus_one unat_gt_0)
    then show ?thesis
      by (simp add: diff_diff_eq)
  qed
  show ?thesis
    by (relation "measure (\<lambda>(G, s). unat (max_steps - num_steps s))")
      (auto simp: incr_def call_step_def call_draw_def keep intro: down)
qed

declare loop.simps [simp del]

definition main :: "'g game \<Rightarrow> 'g machine \<Rightarrow> int \<times> 'g machine" where
  "main G s0 = (let s1 = call_create G s0; s2 = s1\<lparr>num_steps := 0\<rparr> in loop G s2)"

text \<open>A run of the process on game logic \<open>G\<close> whose memory starts as \<open>g\<close>.\<close>

definition run :: "'g game \<Rightarrow> 'g \<Rightarrow> int \<times> 'g machine" where
  "run G g = main G (initial g)"

subsection \<open>Vocabulary of the claims\<close>

text \<open>One step/draw cycle with the increment that follows it: the body of the loop up to
  the test of the ceiling.\<close>

definition iteration :: "'g game \<Rightarrow> 'g machine \<Rightarrow> 'g machine" where
  "iteration G s = incr (call_draw G (call_step G s))"

text \<open>The state in which \<open>main\<close> reaches the loop.\<close>

definition started :: "'g game \<Rightarrow> 'g \<Rightarrow> 'g machine" where
  "started G g = (call_create G (initial g))\<lparr>num_steps := 0\<rparr>"

text \<open>The state after \<open>j\<close> cycles of the game logic left to itself, with neither exit
  taken: it says what the hooks would do in each cycle.\<close>

definition free :: "'g game \<Rightarrow> 'g \<Rightarrow> nat \<Rightarrow> 'g machine" where
  "free G g j = (iteration G ^^ j) (started G g)"

text \<open>\<open>called_in G g j\<close>: the game logic calls \<open>end_game\<close> during cycle \<open>j\<close>, in its
  step hook or in its draw hook; cycle \<open>0\<close> stands for the create hook.\<close>

fun called_in :: "'g game \<Rightarrow> 'g \<Rightarrow> nat \<Rightarrow> bool" where
  "called_in G g 0 = ends (global_create G g)"
| "called_in G g (Suc j) =
     (ends (global_step G (mem (free G g j))) \<or>
      ends (global_draw G (mem (call_step G (free G g j)))))"

text \<open>The trace of \<open>k\<close> cycles from a counter at \<open>0\<close>.\<close>

definition cycles :: "nat \<Rightarrow> event list" where
  "cycles k = concat (map (\<lambda>i. [Step, Draw, Incr (of_nat (Suc i))]) [0..<k])"

definition failed :: "'g machine \<Rightarrow> 'g machine" where
  "failed s = s\<lparr>stderr := stderr s @ failure_text\<rparr>"

subsection \<open>Sample game logic\<close>

text \<open>Hooks that do nothing.\<close>

definition idle_game :: "unit game" where
  "idle_game = \<lparr>global_create = (\<lambda>g. Return g), global_step = (\<lambda>g. Return g),
     global_draw = (\<lambda>g. Return g)\<rparr>"

text \<open>The step hook counts its invocations and calls \<open>end_game\<close> on the \<open>n\<close>-th.\<close>

definition ending_at :: "nat \<Rightarrow> nat game" where
  "ending_at n = \<lparr>global_create = (\<lambda>g. Return g),
     global_step = (\<lambda>g. if Suc g = n then Call_end_game (Return (Suc g)) else Return (Suc g)),
     global_draw = (\<lambda>g. Return g)\<rparr>"

text \<open>The create hook calls \<open>end_game\<close>.\<close>

definition created_ended :: "unit game" where
  "created_ended = \<lparr>global_create = (\<lambda>g. Call_end_game (Return g)),
     global_step = (\<lambda>g. Return g), global_draw = (\<lambda>g. Return g)\<rparr>"

section \<open>Properties\<close>

subsection \<open>What the hooks can and cannot change\<close>

lemmas op_defs = print_def printb_def print_float_def printstr_def put_def
  load_sound_def play_sound_def loop_sound_def load_image_def
  set_sprite_position_def draw_sprite_def end_game_def key_pressed_def

lemma num_steps_exec: "num_steps (exec p s) = num_steps s"
  by (induction p arbitrary: s) (simp_all add: op_defs)

lemma stderr_exec: "stderr (exec p s) = stderr s"
  by (induction p arbitrary: s) (simp_all add: op_defs)

lemma trace_exec: "trace (exec p s) = trace s"
  by (induction p arbitrary: s) (simp_all add: op_defs)

text \<open>The flag after a hook is the flag before it, or the hook has called \<open>end_game\<close>.\<close>

lemma game_ended_exec: "game_ended (exec p s) = (game_ended s \<or> ends p)"
  by (induction p arbitrary: s) (simp_all add: op_defs)

lemmas call_defs = call_create_def call_step_def call_draw_def

lemma iteration_fields:
  "num_steps (iteration G s) = num_steps s + 1"
  "stderr (iteration G s) = stderr s"
  "trace (iteration G s) = trace s @ [Step, Draw, Incr (num_steps s + 1)]"
  "game_ended (iteration G s) =
     (game_ended s \<or> ends (global_step G (mem s)) \<or> ends (global_draw G (mem (call_step G s))))"
  by (simp_all add: iteration_def incr_def call_defs num_steps_exec stderr_exec trace_exec
      game_ended_exec)

lemma num_steps_funpow:
  "num_steps ((iteration G ^^ k) s) = num_steps s + of_nat k"
  by (induction k) (simp_all add: iteration_fields)

lemma stderr_funpow: "stderr ((iteration G ^^ k) s) = stderr s"
  by (induction k) (simp_all add: iteration_fields)

lemma trace_funpow:
  "num_steps s = 0 \<Longrightarrow> trace ((iteration G ^^ k) s) = trace s @ cycles k"
  by (induction k) (simp_all add: iteration_fields num_steps_funpow cycles_def add.commute)

lemma started_fields:
  "num_steps (started G g) = 0"
  "stderr (started G g) = []"
  "trace (started G g) = [Create]"
  "game_ended (started G g) = ends (global_create G g)"
  by (simp_all add: started_def call_defs initial_def stderr_exec trace_exec game_ended_exec)

lemma free_Suc: "free G g (Suc j) = iteration G (free G g j)"
  by (simp add: free_def)

lemma free_fields:
  "num_steps (free G g k) = of_nat k"
  "stderr (free G g k) = []"
  "trace (free G g k) = Create # cycles k"
  by (simp_all add: free_def num_steps_funpow stderr_funpow trace_funpow started_fields)

text \<open>The flag is set after cycle \<open>j\<close> exactly when \<open>end_game\<close> has been called in the
  create hook or in one of the cycles up to \<open>j\<close>.\<close>

lemma game_ended_free: "game_ended (free G g j) = (\<exists>i\<le>j. called_in G g i)"
proof (induction j)
  case 0
  then show ?case by (simp add: free_def started_fields)
next
  case (Suc j)
  have "game_ended (free G g (Suc j)) = (game_ended (free G g j) \<or> called_in G g (Suc j))"
    by (simp add: free_Suc iteration_fields)
  then show ?case
    using Suc by (auto simp: le_Suc_eq)
qed

subsection \<open>The counter against the ceiling\<close>

lemma sint_count: "n < 2 ^ 31 \<Longrightarrow> sint (of_nat n :: cint) = int n"
  by (simp add: signed_of_nat signed_take_bit_int_eq_self)

lemma ceiling_test:
  "n < 1000 \<Longrightarrow> (max_steps \<le>s (of_nat n :: cint) + 1) = (n = 999)"
proof -
  assume n: "n < 1000"
  have "sint (of_nat (Suc n) :: cint) = int (Suc n)"
    by (rule sint_count) (use n in simp)
  then show ?thesis
    using n by (auto simp: max_steps_def word_sle_eq add.commute)
qed

lemma unat_count: "k \<le> 1000 \<Longrightarrow> unat (of_nat k :: cint) = k"
  by (simp add: unat_of_nat)

subsection \<open>The loop, one iteration at a time\<close>

lemma loop_unfold:
  "loop G s = (if game_ended s then (0, s)
     else if max_steps \<le>s num_steps (iteration G s) then (1, failed (iteration G s))
     else loop G (iteration G s))"
  by (subst loop.simps) (simp add: iteration_def failed_def Let_def)

lemma shift_unset:
  assumes "\<forall>j<Suc k. \<not> game_ended ((iteration G ^^ j) s)"
  shows "\<forall>j<k. \<not> game_ended ((iteration G ^^ j) (iteration G s))"
proof (intro allI impI)
  fix j assume "j < k"
  then have "\<not> game_ended ((iteration G ^^ Suc j) s)"
    using assms by blast
  then show "\<not> game_ended ((iteration G ^^ j) (iteration G s))"
    by (simp add: funpow_swap1)
qed

text \<open>The flag is seen set before the counter reaches the ceiling: the loop ends there.\<close>

lemma loop_success:
  assumes "num_steps s = of_nat n" "n + k < 1000"
    "\<forall>j<k. \<not> game_ended ((iteration G ^^ j) s)" "game_ended ((iteration G ^^ k) s)"
  shows "loop G s = (0, (iteration G ^^ k) s)"
  using assms
proof (induction k arbitrary: s n)
  case 0
  then show ?case by (simp add: loop_unfold)
next
  case (Suc k)
  let ?s = "iteration G s"
  from Suc.prems(3) have now: "\<not> game_ended s" by force
  have cnt: "num_steps ?s = of_nat (Suc n)"
    by (simp add: iteration_fields Suc.prems(1))
  have "\<not> max_steps \<le>s num_steps ?s"
    using Suc.prems(2) ceiling_test [of n] by (simp add: iteration_fields Suc.prems(1))
  then have "loop G s = loop G ?s"
    using now by (subst loop_unfold) simp
  moreover have "loop G ?s = (0, (iteration G ^^ k) ?s)"
  proof (rule Suc.IH [OF cnt])
    show "Suc n + k < 1000" using Suc.prems(2) by simp
    show "\<forall>j<k. \<not> game_ended ((iteration G ^^ j) ?s)"
      using Suc.prems(3) by (rule shift_unset)
    show "game_ended ((iteration G ^^ k) ?s)"
      using Suc.prems(4) by (simp add: funpow_swap1)
  qed
  ultimately show ?case by (simp add: funpow_swap1)
qed

text \<open>The flag is not seen set before the counter reaches the ceiling: the run fails,
  whatever the last cycle did to the flag.\<close>

lemma loop_failure:
  assumes "num_steps s = of_nat n" "n + k = 1000" "0 < k"
    "\<forall>j<k. \<not> game_ended ((iteration G ^^ j) s)"
  shows "loop G s = (1, failed ((iteration G ^^ k) s))"
  using assms
proof (induction k arbitrary: s n)
  case 0
  then show ?case by simp
next
  case (Suc k)
  let ?s = "iteration G s"
  from Suc.prems(4) have now: "\<not> game_ended s" by force
  have cnt: "num_steps ?s = of_nat (Suc n)"
    by (simp add: iteration_fields Suc.prems(1))
  have test: "(max_steps \<le>s num_steps ?s) = (k = 0)"
    using Suc.prems(2) ceiling_test [of n] by (auto simp: iteration_fields Suc.prems(1))
  show ?case
  proof (cases k)
    case 0
    then show ?thesis
      using now test by (subst loop_unfold) simp
  next
    case (Suc k')
    have "loop G s = loop G ?s"
      using now test Suc by (subst loop_unfold) simp
    moreover have "loop G ?s = (1, failed ((iteration G ^^ k) ?s))"
    proof (rule Suc.IH [OF cnt])
      show "Suc n + k = 1000" using Suc.prems(2) by simp
      show "0 < k" using Suc by simp
      show "\<forall>j<k. \<not> game_ended ((iteration G ^^ j) ?s)"
        using Suc.prems(4) by (rule shift_unset)
    qed
    ultimately show ?thesis by (simp add: funpow_swap1)
  qed
qed

subsection \<open>Whole runs\<close>

lemma run_eq: "run G g = loop G (started G g)"
  by (simp add: run_def main_def started_def Let_def)

lemma run_success:
  assumes "k < 1000" "\<forall>j<k. \<not> called_in G g j" "called_in G g k"
  shows "run G g = (0, free G g k)"
proof -
  have "loop G (started G g) = (0, (iteration G ^^ k) (started G g))"
  proof (rule loop_success [where n = 0])
    show "num_steps (started G g) = of_nat 0" by (simp add: started_fields)
    show "0 + k < 1000" using assms(1) by simp
    show "\<forall>j<k. \<not> game_ended ((iteration G ^^ j) (started G g))"
      using assms(2) game_ended_free [of G g] by (auto simp: free_def)
    show "game_ended ((iteration G ^^ k) (started G g))"
      using assms(3) game_ended_free [of G g k] by (auto simp: free_def)
  qed
  then show ?thesis by (simp add: run_eq free_def)
qed

lemma run_failure:
  assumes "\<forall>j<1000. \<not> called_in G g j"
  shows "run G g = (1, failed (free G g 1000))"
proof -
  have "loop G (started G g) = (1, failed ((iteration G ^^ 1000) (started G g)))"
  proof (rule loop_failure [where n = 0])
    show "num_steps (started G g) = of_nat 0" by (simp add: started_fields)
    show "\<forall>j<1000. \<not> game_ended ((iteration G ^^ j) (started G g))"
      using assms game_ended_free [of G g] by (auto simp: free_def)
  qed simp_all
  then show ?thesis by (simp add: run_eq free_def)
qed

text \<open>Every run ends in one of the two ways.\<close>

lemma run_cases:
  obtains k where "k < 1000" "run G g = (0, free G g k)"
  | "run G g = (1, failed (free G g 1000))"
proof (cases "\<exists>k<1000. called_in G g k")
  case True
  define k where "k = (LEAST k. called_in G g k)"
  from True obtain k0 where k0: "k0 < 1000" "called_in G g k0" by blast
  have "called_in G g k" unfolding k_def using k0(2) by (rule LeastI)
  moreover have "k \<le> k0" unfolding k_def using k0(2) by (rule Least_le)
  moreover have "\<forall>j<k. \<not> called_in G g j"
    unfolding k_def using not_less_Least by blast
  ultimately have "k < 1000" "run G g = (0, free G g k)"
    using k0(1) run_success [of k G g] by simp_all
  then show ?thesis by (rule that(1))
next
  case False
  then have "run G g = (1, failed (free G g 1000))"
    by (intro run_failure) blast
  then show ?thesis by (rule that(2))
qed

lemma failed_fields:
  "trace (failed s) = trace s"
  "num_steps (failed s) = num_steps s"
  "game_ended (failed s) = game_ended s"
  "stderr (failed s) = stderr s @ failure_text"
  by (simp_all add: failed_def)

subsection \<open>The sample game logic\<close>

lemma idle_never: "\<not> called_in idle_game g j"
  by (cases j) (simp_all add: idle_game_def)

lemma mem_free_ending_at: "mem (free (ending_at n) g j) = g + j"
proof (induction j)
  case 0
  then show ?case
    by (simp add: free_def started_def call_create_def ending_at_def initial_def)
next
  case (Suc j)
  have "mem (iteration (ending_at n) s) = Suc (mem s)" for s :: "nat machine"
    by (simp add: iteration_def incr_def call_step_def call_draw_def ending_at_def op_defs)
  then show ?case
    using Suc by (simp add: free_Suc)
qed

lemma called_in_ending_at: "called_in (ending_at n) 0 j = (0 < j \<and> j = n)"
proof (cases j)
  case 0
  then show ?thesis by (simp add: ending_at_def)
next
  case (Suc i)
  have "mem (free (ending_at n) 0 i) = i"
    using mem_free_ending_at [of n 0 i] by simp
  then show ?thesis
    using Suc by (auto simp: ending_at_def)
qed

section \<open>The claims\<close>

text \<open>
  C1, as stated: after each iteration the flag is tested first and the ceiling second, so
  that game logic calling \<open>end_game\<close> during the 1000th cycle exits with status 0.
  The code tests the ceiling inside the body and the flag only when the loop comes round
  again. With a step hook that calls \<open>end_game\<close> on its 1000th invocation, the call is
  made during cycle 1000, the flag is set when the process exits, and the exit status
  is 1.
\<close>

theorem end_game_in_cycle_1000_fails:
  "called_in (ending_at 1000) 0 1000
   \<and> game_ended (snd (run (ending_at 1000) 0))
   \<and> fst (run (ending_at 1000) 0) = 1"
proof -
  have "\<forall>j<1000. \<not> called_in (ending_at 1000) 0 j"
    by (simp add: called_in_ending_at)
  then have "run (ending_at 1000) 0 = (1, failed (free (ending_at 1000) 0 1000))"
    by (rule run_failure)
  moreover have "called_in (ending_at 1000) 0 1000"
    by (simp add: called_in_ending_at)
  moreover from this have "game_ended (free (ending_at 1000) 0 1000)"
    unfolding game_ended_free by blast
  ultimately show ?thesis
    by (simp add: failed_fields)
qed

text \<open>
  C1, amended: after each step/draw iteration the driver checks the step ceiling first and
  the completion flag second. If the counter has reached the ceiling (1000) the run fails
  with status 1 and the diagnostic, even when the flag has been set in that same
  iteration; only if the counter is below the ceiling and the flag is set does the loop
  terminate with success; otherwise the loop goes on. In particular, for game logic
  that calls \<open>end_game\<close> for the first time during the 1000th step/draw cycle, the
  process exits with status 1, the flag being set.
\<close>

theorem ceiling_checked_before_flag:
  "(\<not> game_ended s \<longrightarrow>
      loop G s =
        (let s' = iteration G s
         in if max_steps \<le>s num_steps s' then (1, s'\<lparr>stderr := stderr s' @ failure_text\<rparr>)
            else if game_ended s' then (0, s')
            else loop G s'))
   \<and> ((\<forall>j<1000. \<not> called_in G g j) \<and> called_in G g 1000 \<longrightarrow>
        fst (run G g) = 1 \<and> game_ended (snd (run G g)))"
proof (intro conjI impI)
  assume "\<not> game_ended s"
  then show "loop G s =
        (let s' = iteration G s
         in if max_steps \<le>s num_steps s' then (1, s'\<lparr>stderr := stderr s' @ failure_text\<rparr>)
            else if game_ended s' then (0, s')
            else loop G s')"
    by (subst loop_unfold) (simp add: Let_def failed_def loop_unfold [of G "iteration G s"])
next
  assume h: "(\<forall>j<1000. \<not> called_in G g j) \<and> called_in G g 1000"
  then have r: "run G g = (1, failed (free G g 1000))"
    by (intro run_failure) simp
  from r show "fst (run G g) = 1" by simp
  from h have "game_ended (free G g 1000)"
    unfolding game_ended_free by blast
  with r show "game_ended (snd (run G g))"
    by (simp add: failed_fields)
qed

theorem ceiling_checked_before_flag_witness:
  "loop (ending_at 1) (started (ending_at 1) 0)
     = (0, iteration (ending_at 1) (started (ending_at 1) 0))
   \<and> loop (ending_at 1000) (free (ending_at 1000) 0 999)
     = (1, failed (free (ending_at 1000) 0 1000))
   \<and> fst (run (ending_at 1000) 0) = 1
   \<and> game_ended (snd (run (ending_at 1000) 0))"
proof -
  let ?A = "ending_at 1" and ?B = "ending_at 1000"
  have a0: "\<not> game_ended (started ?A 0)"
    using game_ended_free [of ?A 0 0] by (simp add: free_def called_in_ending_at)
  have a1: "game_ended (iteration ?A (started ?A 0))"
    using game_ended_free [of ?A 0 1] by (simp add: free_def called_in_ending_at)
  have a2: "\<not> max_steps \<le>s num_steps (iteration ?A (started ?A 0))"
    using ceiling_test [of 0] by (simp add: iteration_fields started_fields)
  have b0: "\<not> game_ended (free ?B 0 999)"
    by (simp add: game_ended_free called_in_ending_at)
  have b1: "iteration ?B (free ?B 0 999) = free ?B 0 1000"
    using free_Suc [of ?B 0 999] by simp
  have b2: "max_steps \<le>s num_steps (free ?B 0 1000)"
    using ceiling_test [of 999] by (simp add: free_fields)
  have b3: "(\<forall>j<1000. \<not> called_in ?B 0 j) \<and> called_in ?B 0 1000"
    by (simp add: called_in_ending_at)
  show ?thesis
    using ceiling_checked_before_flag [where s = "started ?A 0" and G = ?A and g = 0]
      ceiling_checked_before_flag [where s = "free ?B 0 999" and G = ?B and g = 0]
      a0 a1 a2 b0 b1 b2 b3
    by (simp add: Let_def failed_def)
qed

text \<open>
  C2: for every game logic whose hooks call \<open>end_game\<close> for the first time during
  step/draw cycle \<open>k\<close>, with \<open>0 < k < 1000\<close> (no call in the create hook nor in the
  cycles before \<open>k\<close>), the process exits with status 0 after exactly \<open>k\<close> cycles,
  each one call of the step hook followed by one call of the draw hook, and the error
  stream stays empty.
\<close>

theorem exits_after_first_end_game_cycle:
  assumes "0 < k" and "k < 1000"
    and "\<forall>j<k. \<not> called_in G g j" and "called_in G g k"
  shows "fst (run G g) = 0
    \<and> trace (snd (run G g)) = Create # cycles k
    \<and> num_steps (snd (run G g)) = of_nat k
    \<and> stderr (snd (run G g)) = []"
proof -
  have "run G g = (0, free G g k)"
    using assms(2-4) by (rule run_success)
  then show ?thesis
    by (simp add: free_fields)
qed

text \<open>The scenario of the specification: the step hook calls \<open>end_game\<close> on its fifth
  invocation, the other hooks do nothing.\<close>

theorem exits_after_first_end_game_cycle_witness:
  "fst (run (ending_at 5) 0) = 0
   \<and> trace (snd (run (ending_at 5) 0)) =
       [Create, Step, Draw, Incr 1, Step, Draw, Incr 2, Step, Draw, Incr 3,
        Step, Draw, Incr 4, Step, Draw, Incr 5]
   \<and> num_steps (snd (run (ending_at 5) 0)) = 5
   \<and> stderr (snd (run (ending_at 5) 0)) = []"
proof -
  have "\<forall>j<5. \<not> called_in (ending_at 5) 0 j" and "called_in (ending_at 5) 0 5"
    by (simp_all add: called_in_ending_at)
  then show ?thesis
    using exits_after_first_end_game_cycle [of 5 "ending_at 5" 0]
    by (simp add: cycles_def upt_rec [of _ 5] upt_rec [of _ 4] upt_rec [of _ 3]
        upt_rec [of _ 2] upt_rec [of _ 1])
qed

text \<open>
  C3: for every game logic whose hooks do not call \<open>end_game\<close> in the create hook nor
  in any of the first 999 cycles, and so for every game logic that never calls it, the
  process exits with status 1 after exactly 1000 step/draw cycles, and the error stream
  holds exactly the fixed diagnostic line.
\<close>

theorem fails_at_ceiling_without_end_game:
  assumes "\<forall>j<1000. \<not> called_in G g j"
  shows "fst (run G g) = 1
    \<and> trace (snd (run G g)) = Create # cycles 1000
    \<and> num_steps (snd (run G g)) = 1000
    \<and> stderr (snd (run G g)) =
        ''FAILURE: Exceed max number of steps allowed for test. Did you forget to call end_game()?''
        @ [CHR 0x0A]"
proof -
  have "run G g = (1, failed (free G g 1000))"
    using assms by (rule run_failure)
  then show ?thesis
    by (simp add: failed_fields free_fields failure_text_def newline_def)
qed

theorem fails_at_ceiling_without_end_game_witness:
  "fst (run idle_game ()) = 1
   \<and> trace (snd (run idle_game ())) = Create # cycles 1000
   \<and> num_steps (snd (run idle_game ())) = 1000
   \<and> stderr (snd (run idle_game ())) =
       ''FAILURE: Exceed max number of steps allowed for test. Did you forget to call end_game()?''
       @ [CHR 0x0A]"
  using fails_at_ceiling_without_end_game [of idle_game "()"]
  by (simp add: idle_never)

text \<open>
  C4: the completion flag is one boolean of the process state. It is \<open>false\<close> at process
  start; \<open>end_game\<close> sets it, also when it is set already; no other operation changes
  it; and once set it stays set: through any sequence of operations a hook may run,
  through each hook call and the increment of the driver, and from any cycle of a run to
  every later one.
\<close>

theorem game_ended_set_once_never_reset:
  "\<not> game_ended (initial g)
   \<and> game_ended (end_game s)
   \<and> game_ended (print i s) = game_ended s
   \<and> game_ended (printb b s) = game_ended s
   \<and> game_ended (print_float x s) = game_ended s
   \<and> game_ended (printstr str s) = game_ended s
   \<and> game_ended (snd (load_sound str s)) = game_ended s
   \<and> game_ended (play_sound p s) = game_ended s
   \<and> game_ended (loop_sound p s) = game_ended s
   \<and> game_ended (snd (load_image str s)) = game_ended s
   \<and> game_ended (set_sprite_position p x y s) = game_ended s
   \<and> game_ended (draw_sprite p s) = game_ended s
   \<and> game_ended (snd (key_pressed i s)) = game_ended s
   \<and> (game_ended s \<longrightarrow> game_ended (exec h s))
   \<and> (game_ended s \<longrightarrow> game_ended (call_create G s) \<and> game_ended (call_step G s)
        \<and> game_ended (call_draw G s) \<and> game_ended (incr s))
   \<and> (game_ended (free G g m) \<and> m \<le> n \<longrightarrow> game_ended (free G g n))"
proof -
  have "game_ended (free G g n)" if "game_ended (free G g m)" and "m \<le> n"
    using that unfolding game_ended_free by (meson le_trans)
  then show ?thesis
    by (simp add: initial_def op_defs call_defs incr_def game_ended_exec)
qed

theorem game_ended_set_once_never_reset_witness:
  "game_ended (exec (Call_end_game (Call_print 7 (Return 1))) (end_game (initial (0::nat))))
   \<and> game_ended (call_step (ending_at 2) (end_game (initial 0)))
   \<and> game_ended (free (ending_at 2) 0 5)"
proof -
  have "game_ended (end_game (initial (0::nat)))"
    by (simp add: end_game_def)
  moreover have "game_ended (free (ending_at 2) 0 2)"
    unfolding game_ended_free by (rule exI [of _ 2]) (simp add: called_in_ending_at)
  ultimately show ?thesis
    using game_ended_set_once_never_reset
      [where s = "end_game (initial 0)" and h = "Call_end_game (Call_print 7 (Return 1))"
        and G = "ending_at 2" and g = 0 and m = 2 and n = 5]
    by simp
qed

text \<open>
  C5: on every run the driver calls the create hook exactly once, and before every call
  of the step hook or the draw hook: the trace of the run starts with the call of the
  create hook and has no other.
\<close>

theorem create_called_once_and_first:
  "\<exists>rest. trace (snd (run G g)) = Create # rest \<and> Create \<notin> set rest"
proof -
  have "Create \<notin> set (cycles k)" for k
    by (auto simp: cycles_def)
  then show ?thesis
    by (cases rule: run_cases [of G g]) (simp_all add: failed_fields free_fields)
qed

text \<open>
  C6: the counter is 0 when the loop is reached, and each iteration calls the step hook,
  then the draw hook, then adds one to the counter: the trace of a run is the call of the
  create hook followed, for \<open>i = 1, 2, \<dots>, n\<close>, by \<open>Step\<close>, \<open>Draw\<close> and the increment
  that brings the counter to \<open>i\<close>, where \<open>n\<close>, the number of iterations made, is the
  value of the counter at the end.
\<close>

theorem step_then_draw_then_increment:
  "num_steps (started G g) = 0
   \<and> trace (snd (run G g)) = Create # cycles (unat (num_steps (snd (run G g))))
   \<and> unat (num_steps (snd (run G g))) \<le> 1000"
proof (cases rule: run_cases [of G g])
  case (1 k)
  then show ?thesis
    by (simp add: started_fields free_fields unat_count)
next
  case 2
  then show ?thesis
    by (simp add: started_fields free_fields failed_fields)
qed

text \<open>
  C7: \<open>load_sound\<close> and \<open>load_image\<close> return the null handle for every file name, and
  leave the state as it is; a hook that calls one goes on with the null handle.
\<close>

theorem loads_return_nullptr:
  "load_sound filename s = (nullptr, s)
   \<and> load_image filename s = (nullptr, s)
   \<and> exec (Call_load_sound filename k) s = exec (k nullptr) s
   \<and> exec (Call_load_image filename k) s = exec (k nullptr) s"
  by (simp add: load_sound_def load_image_def)

text \<open>
  C8: \<open>key_pressed\<close> returns \<open>false\<close> for every key code, negative, zero or large, and
  leaves the state as it is; a hook that calls it goes on with \<open>false\<close>.
\<close>

theorem key_pressed_always_false:
  "key_pressed code s = (False, s)
   \<and> fst (key_pressed (- 1) s) = False
   \<and> fst (key_pressed 0 s) = False
   \<and> fst (key_pressed 2147483647 s) = False
   \<and> exec (Call_key_pressed code k) s = exec (k False) s"
  by (simp add: key_pressed_def)

text \<open>
  C9: \<open>play_sound\<close>, \<open>loop_sound\<close>, \<open>set_sprite_position\<close> and \<open>draw_sprite\<close> take
  any handle, the null handle included, and do nothing: the state after the call is the
  state before it, so the completion flag, the step counter, the standard output and
  the error stream are as they were.
\<close>

theorem sound_and_sprite_calls_change_nothing:
  "play_sound p s = s \<and> loop_sound p s = s
   \<and> set_sprite_position p x y s = s \<and> draw_sprite p s = s
   \<and> play_sound nullptr s = s \<and> loop_sound nullptr s = s
   \<and> set_sprite_position nullptr x y s = s \<and> draw_sprite nullptr s = s
   \<and> (game_ended (play_sound p s), num_steps (play_sound p s),
        stdout (play_sound p s), stderr (play_sound p s))
       = (game_ended s, num_steps s, stdout s, stderr s)
   \<and> (game_ended (loop_sound p s), num_steps (loop_sound p s),
        stdout (loop_sound p s), stderr (loop_sound p s))
       = (game_ended s, num_steps s, stdout s, stderr s)
   \<and> (game_ended (set_sprite_position p x y s), num_steps (set_sprite_position p x y s),
        stdout (set_sprite_position p x y s), stderr (set_sprite_position p x y s))
       = (game_ended s, num_steps s, stdout s, stderr s)
   \<and> (game_ended (draw_sprite p s), num_steps (draw_sprite p s),
        stdout (draw_sprite p s), stderr (draw_sprite p s))
       = (game_ended s, num_steps s, stdout s, stderr s)"
  by (simp add: play_sound_def loop_sound_def set_sprite_position_def draw_sprite_def)

text \<open>
  C10: if the create hook calls \<open>end_game\<close>, the driver runs no step/draw cycle: the
  only hook called is the create hook, the process exits with status 0 and the error
  stream stays empty.
\<close>

theorem end_game_in_create_runs_no_cycle:
  assumes "ends (global_create G g)"
  shows "fst (run G g) = 0
    \<and> trace (snd (run G g)) = [Create]
    \<and> num_steps (snd (run G g)) = 0
    \<and> stderr (snd (run G g)) = []"
proof -
  have "run G g = (0, free G g 0)"
    by (rule run_success) (simp_all add: assms)
  then show ?thesis
    by (simp add: free_fields cycles_def)
qed

theorem end_game_in_create_runs_no_cycle_witness:
  "fst (run created_ended ()) = 0
   \<and> trace (snd (run created_ended ())) = [Create]
   \<and> num_steps (snd (run created_ended ())) = 0
   \<and> stderr (snd (run created_ended ())) = []"
  using end_game_in_create_runs_no_cycle [of created_ended "()"]
  by (simp add: created_ended_def)

end
